theory Spec2Isabelle
  imports Complex_Main "HOL-Library.Product_Lexorder"
begin

section \<open>Python strings\<close>

text \<open>
  A Python \<^verbatim>\<open>str\<close> is modelled as a \<open>string\<close>, a list of characters with codes 0 to
  255 (Latin-1). The character classes below are those of Python 3 on that range:
  \<^verbatim>\<open>str.isspace\<close> (which is also the regular-expression class \<^verbatim>\<open>\s\<close> and what
  \<^verbatim>\<open>strip\<close> and \<^verbatim>\<open>split\<close> remove), the decimal digits (\<^verbatim>\<open>\d\<close>) and the word
  characters (\<^verbatim>\<open>\w\<close>).
\<close>

definition is_space :: "char \<Rightarrow> bool" where
  "is_space c \<longleftrightarrow> c \<in> set [CHR 0x20, CHR 0x09, CHR 0x0A, CHR 0x0B, CHR 0x0C, CHR 0x0D,
      CHR 0x1C, CHR 0x1D, CHR 0x1E, CHR 0x1F, CHR 0x85, CHR 0xA0]"

definition is_digit :: "char \<Rightarrow> bool" where
  "is_digit c \<longleftrightarrow> c \<in> set ''0123456789''"

definition ascii_upper :: string where
  "ascii_upper = ''ABCDEFGHIJKLMNOPQRSTUVWXYZ''"

definition ascii_lower :: string where
  "ascii_lower = ''abcdefghijklmnopqrstuvwxyz''"

definition latin1_upper :: string where
  "latin1_upper = [CHR 0xC0, CHR 0xC1, CHR 0xC2, CHR 0xC3, CHR 0xC4, CHR 0xC5, CHR 0xC6, CHR 0xC7,
     CHR 0xC8, CHR 0xC9, CHR 0xCA, CHR 0xCB, CHR 0xCC, CHR 0xCD, CHR 0xCE, CHR 0xCF,
     CHR 0xD0, CHR 0xD1, CHR 0xD2, CHR 0xD3, CHR 0xD4, CHR 0xD5, CHR 0xD6,
     CHR 0xD8, CHR 0xD9, CHR 0xDA, CHR 0xDB, CHR 0xDC, CHR 0xDD, CHR 0xDE]"

definition latin1_lower :: string where
  "latin1_lower = [CHR 0xE0, CHR 0xE1, CHR 0xE2, CHR 0xE3, CHR 0xE4, CHR 0xE5, CHR 0xE6, CHR 0xE7,
     CHR 0xE8, CHR 0xE9, CHR 0xEA, CHR 0xEB, CHR 0xEC, CHR 0xED, CHR 0xEE, CHR 0xEF,
     CHR 0xF0, CHR 0xF1, CHR 0xF2, CHR 0xF3, CHR 0xF4, CHR 0xF5, CHR 0xF6,
     CHR 0xF8, CHR 0xF9, CHR 0xFA, CHR 0xFB, CHR 0xFC, CHR 0xFD, CHR 0xFE]"

definition is_word :: "char \<Rightarrow> bool" where
  "is_word c \<longleftrightarrow> c \<in> set (''0123456789_'' @ ascii_upper @ ascii_lower
      @ [CHR 0xAA, CHR 0xB2, CHR 0xB3, CHR 0xB5, CHR 0xB9, CHR 0xBA, CHR 0xBC, CHR 0xBD, CHR 0xBE,
         CHR 0xDF, CHR 0xFF]
      @ latin1_upper @ latin1_lower)"

text \<open>
  \<^verbatim>\<open>str.lower\<close> maps a character to a character on this range. \<^verbatim>\<open>str.upper\<close> does
  not: the sharp s becomes \<^verbatim>\<open>SS\<close>, and the micro sign and the y with diaeresis have their
  capitals outside the range; they are kept as they are, which no comparison with an ASCII
  text can observe.
\<close>

definition lower_chr :: "char \<Rightarrow> char" where
  "lower_chr c =
     (case map_of (zip (ascii_upper @ latin1_upper) (ascii_lower @ latin1_lower)) c of
        Some l \<Rightarrow> l
      | None \<Rightarrow> c)"

definition str_lower :: "string \<Rightarrow> string" where
  "str_lower s = map lower_chr s"

definition upper_chr :: "char \<Rightarrow> string" where
  "upper_chr c =
     (if c = CHR 0xDF then ''SS''
      else case map_of (zip (ascii_lower @ latin1_lower) (ascii_upper @ latin1_upper)) c of
             Some u \<Rightarrow> [u]
           | None \<Rightarrow> [c])"

definition str_upper :: "string \<Rightarrow> string" where
  "str_upper s = concat (map upper_chr s)"

definition str_lstrip :: "string \<Rightarrow> string" where
  "str_lstrip s = dropWhile is_space s"

definition str_rstrip :: "string \<Rightarrow> string" where
  "str_rstrip s = rev (dropWhile is_space (rev s))"

definition str_strip :: "string \<Rightarrow> string" where
  "str_strip s = str_rstrip (str_lstrip s)"

text \<open>\<^verbatim>\<open>not line.strip()\<close>: the line is empty or all whitespace.\<close>

definition is_blank :: "string \<Rightarrow> bool" where
  "is_blank s \<longleftrightarrow> str_strip s = []"

text \<open>\<^verbatim>\<open>s.split()\<close>: the maximal runs of characters that are not whitespace.\<close>

fun split_step :: "char \<Rightarrow> string \<times> string list \<Rightarrow> string \<times> string list" where
  "split_step c (cur, acc) =
     (if is_space c then ([], if cur = [] then acc else cur # acc) else (c # cur, acc))"

definition str_split :: "string \<Rightarrow> string list" where
  "str_split s = (case foldr split_step s ([], []) of
                    (cur, acc) \<Rightarrow> if cur = [] then acc else cur # acc)"

text \<open>\<^verbatim>\<open>sep.join(parts)\<close>.\<close>

fun str_join :: "string \<Rightarrow> string list \<Rightarrow> string" where
  "str_join sep [] = []"
| "str_join sep [p] = p"
| "str_join sep (p # q # ps) = p @ sep @ str_join sep (q # ps)"

text \<open>\<^verbatim>\<open>s.split(sep)\<close> for a separator of one character: at least one piece.\<close>

fun split_on :: "char \<Rightarrow> string \<Rightarrow> string list" where
  "split_on sep [] = [[]]"
| "split_on sep (c # cs) =
     (if c = sep then [] # split_on sep cs
      else (case split_on sep cs of
              [] \<Rightarrow> [[c]]
            | part # parts \<Rightarrow> (c # part) # parts))"

text \<open>\<^verbatim>\<open>s.count(c)\<close> for one character, and \<^verbatim>\<open>needle in s\<close>.\<close>

definition str_count :: "char \<Rightarrow> string \<Rightarrow> int" where
  "str_count c s = int (length (filter (\<lambda>x. x = c) s))"

fun starts_with :: "string \<Rightarrow> string \<Rightarrow> bool" where
  "starts_with [] s = True"
| "starts_with (n # ns) [] = False"
| "starts_with (n # ns) (c # cs) = (n = c \<and> starts_with ns cs)"

fun str_contains :: "string \<Rightarrow> string \<Rightarrow> bool" where
  "str_contains needle [] = (needle = [])"
| "str_contains needle (c # cs) = (starts_with needle (c # cs) \<or> str_contains needle cs)"

definition str_endswith :: "string \<Rightarrow> string \<Rightarrow> bool" where
  "str_endswith s suffix = starts_with (rev suffix) (rev s)"

text \<open>
  \<^verbatim>\<open>s.find(needle)\<close> and \<^verbatim>\<open>s.rfind(needle)\<close>: the first and the last index at which
  the needle starts, or \<open>-1\<close>.
\<close>

fun find_from :: "string \<Rightarrow> string \<Rightarrow> int \<Rightarrow> int" where
  "find_from needle [] i = (if needle = [] then i else -1)"
| "find_from needle (c # cs) i =
     (if starts_with needle (c # cs) then i else find_from needle cs (i + 1))"

definition str_find :: "string \<Rightarrow> string \<Rightarrow> int" where
  "str_find s needle = find_from needle s 0"

fun rfind_from :: "string \<Rightarrow> string \<Rightarrow> int \<Rightarrow> int \<Rightarrow> int" where
  "rfind_from needle [] i best = (if needle = [] then i else best)"
| "rfind_from needle (c # cs) i best =
     rfind_from needle cs (i + 1) (if starts_with needle (c # cs) then i else best)"

definition str_rfind :: "string \<Rightarrow> string \<Rightarrow> int" where
  "str_rfind s needle = rfind_from needle s 0 (-1)"

text \<open>\<^verbatim>\<open>s.zfill(width)\<close> for a text without a sign: zeros on the left up to the width.\<close>

definition str_zfill :: "nat \<Rightarrow> string \<Rightarrow> string" where
  "str_zfill width s = replicate (width - length s) CHR ''0'' @ s"

text \<open>\<^verbatim>\<open>s[i:j]\<close> for \<open>0 \<le> i \<le> j\<close>.\<close>

definition substr :: "string \<Rightarrow> nat \<Rightarrow> nat \<Rightarrow> string" where
  "substr s i j = take (j - i) (drop i s)"

text \<open>\<^verbatim>\<open>str(n)\<close> of an integer.\<close>

fun str_nat :: "nat \<Rightarrow> string" where
  "str_nat n = (if n < 10 then [''0123456789'' ! n]
                else str_nat (n div 10) @ [''0123456789'' ! (n mod 10)])"

definition str_int :: "int \<Rightarrow> string" where
  "str_int n = (if n < 0 then CHR ''-'' # str_nat (nat (- n)) else str_nat (nat n))"

subsection \<open>Facts about strings\<close>

lemma split_on_nonempty: "split_on sep s \<noteq> []"
  by (induction s) (auto split: list.splits)

lemma str_zfill_nonempty: "0 < width \<Longrightarrow> str_zfill width s \<noteq> []"
  by (cases s) (simp_all add: str_zfill_def)

lemma is_blank_iff: "is_blank s \<longleftrightarrow> (\<forall>c\<in>set s. is_space c)"
proof -
  have r: "str_rstrip t = [] \<longleftrightarrow> (\<forall>c\<in>set t. is_space c)" for t
    by (simp add: str_rstrip_def dropWhile_eq_Nil_conv)
  have "(\<forall>c\<in>set (dropWhile is_space s). is_space c) \<longleftrightarrow> (\<forall>c\<in>set s. is_space c)"
  proof
    assume a: "\<forall>c\<in>set (dropWhile is_space s). is_space c"
    have "dropWhile is_space s = []"
    proof (rule ccontr)
      assume "dropWhile is_space s \<noteq> []"
      then have "\<not> is_space (hd (dropWhile is_space s))" by (rule hd_dropWhile)
      moreover have "hd (dropWhile is_space s) \<in> set (dropWhile is_space s)"
        using \<open>dropWhile is_space s \<noteq> []\<close> by simp
      ultimately show False using a by blast
    qed
    then show "\<forall>c\<in>set s. is_space c" by (simp add: dropWhile_eq_Nil_conv)
  next
    assume "\<forall>c\<in>set s. is_space c"
    then show "\<forall>c\<in>set (dropWhile is_space s). is_space c"
      by (auto dest: set_dropWhileD)
  qed
  then show ?thesis by (simp add: is_blank_def str_strip_def str_lstrip_def r)
qed

section \<open>Regular expressions\<close>

text \<open>
  The patterns of the code are values of the datatype \<open>re\<close>, matched by a function that
  follows Python's backtracking matcher: \<open>ends r x\<close> lists, in the order in which the
  matcher would try them, the states in which a match of \<open>r\<close> started in state \<open>x\<close> can
  end. A state holds the text before the position (reversed), the text from the position
  on, and the groups captured so far. The first element of the list is the match that
  \<^verbatim>\<open>re\<close> reports; alternatives are ordered left to right, greedy repetitions try the
  longest first and lazy ones the shortest.

  \<open>Look\<close> is a zero-width assertion on the text before and after the position (anchors,
  word boundaries, look-around for one character).
\<close>

type_synonym rx_state = "string \<times> string \<times> (nat \<times> string) list"

datatype re =
    Cls "char \<Rightarrow> bool"
  | Eps
  | Seq re re
  | Alt re re
  | Opt re
  | Star re
  | Lazy re
  | Look "string \<Rightarrow> string \<Rightarrow> bool"
  | Grp nat re

text \<open>
  A repetition runs its body again only from a state that consumed a character, so the
  length of the remaining text bounds the number of rounds.
\<close>

fun star_greedy :: "nat \<Rightarrow> (rx_state \<Rightarrow> rx_state list) \<Rightarrow> rx_state \<Rightarrow> rx_state list" where
  "star_greedy 0 f x = [x]"
| "star_greedy (Suc n) f x =
     concat (map (\<lambda>y. if length (fst (snd y)) < length (fst (snd x)) then star_greedy n f y else [])
                 (f x)) @ [x]"

fun star_lazy :: "nat \<Rightarrow> (rx_state \<Rightarrow> rx_state list) \<Rightarrow> rx_state \<Rightarrow> rx_state list" where
  "star_lazy 0 f x = [x]"
| "star_lazy (Suc n) f x =
     x # concat (map (\<lambda>y. if length (fst (snd y)) < length (fst (snd x)) then star_lazy n f y else [])
                     (f x))"

primrec ends :: "re \<Rightarrow> rx_state \<Rightarrow> rx_state list" where
  "ends (Cls p) = (\<lambda>(b, a, g). case a of [] \<Rightarrow> [] | c # cs \<Rightarrow> if p c then [(c # b, cs, g)] else [])"
| "ends Eps = (\<lambda>x. [x])"
| "ends (Seq r1 r2) = (\<lambda>x. concat (map (ends r2) (ends r1 x)))"
| "ends (Alt r1 r2) = (\<lambda>x. ends r1 x @ ends r2 x)"
| "ends (Opt r) = (\<lambda>x. ends r x @ [x])"
| "ends (Star r) = (\<lambda>x. star_greedy (length (fst (snd x))) (ends r) x)"
| "ends (Lazy r) = (\<lambda>x. star_lazy (length (fst (snd x))) (ends r) x)"
| "ends (Look p) = (\<lambda>(b, a, g). if p b a then [(b, a, g)] else [])"
| "ends (Grp n r) = (\<lambda>(b, a, g).
      map (\<lambda>(b', a', g'). (b', a', (n, take (length a - length a') a) # g')) (ends r (b, a, g)))"

subsection \<open>Pattern syntax\<close>

definition chr :: "char \<Rightarrow> re" where
  "chr c = Cls (\<lambda>x. x = c)"

text \<open>
  Under \<^verbatim>\<open>re.IGNORECASE\<close> a character of the pattern matches its lower-case and its
  upper-case form.
\<close>

definition chr_i :: "char \<Rightarrow> re" where
  "chr_i c = Cls (\<lambda>x. x = lower_chr c \<or> [x] = upper_chr c)"

definition oneof :: "string \<Rightarrow> re" where
  "oneof cs = Cls (\<lambda>x. x \<in> set cs)"

definition oneof_i :: "string \<Rightarrow> re" where
  "oneof_i cs = Cls (\<lambda>x. x \<in> set (map lower_chr cs) \<or> [x] \<in> set (map upper_chr cs))"

definition noneof :: "string \<Rightarrow> re" where
  "noneof cs = Cls (\<lambda>x. x \<notin> set cs)"

definition digit :: re where "digit = Cls is_digit"
definition space :: re where "space = Cls is_space"
definition wordc :: re where "wordc = Cls is_word"

text \<open>\<^verbatim>\<open>.\<close> without \<^verbatim>\<open>DOTALL\<close>: any character but the newline.\<close>

definition dot :: re where "dot = Cls (\<lambda>x. x \<noteq> CHR 0x0A)"

fun seqs :: "re list \<Rightarrow> re" where
  "seqs [] = Eps"
| "seqs [r] = r"
| "seqs (r # rs) = Seq r (seqs rs)"

fun alts :: "re list \<Rightarrow> re" where
  "alts [] = Look (\<lambda>b a. False)"
| "alts [r] = r"
| "alts (r # rs) = Alt r (alts rs)"

definition lit :: "string \<Rightarrow> re" where
  "lit s = seqs (map chr s)"

definition lit_i :: "string \<Rightarrow> re" where
  "lit_i s = seqs (map chr_i s)"

definition plus :: "re \<Rightarrow> re" where
  "plus r = Seq r (Star r)"

definition lazy_plus :: "re \<Rightarrow> re" where
  "lazy_plus r = Seq r (Lazy r)"

fun times :: "nat \<Rightarrow> re \<Rightarrow> re" where
  "times 0 r = Eps"
| "times (Suc n) r = Seq r (times n r)"

fun upto_times :: "nat \<Rightarrow> re \<Rightarrow> re" where
  "upto_times 0 r = Eps"
| "upto_times (Suc n) r = Opt (Seq r (upto_times n r))"

text \<open>\<^verbatim>\<open>r{m,n}\<close> and \<^verbatim>\<open>r{m,}\<close>.\<close>

definition rep_range :: "nat \<Rightarrow> nat \<Rightarrow> re \<Rightarrow> re" where
  "rep_range m n r = Seq (times m r) (upto_times (n - m) r)"

definition rep_min :: "nat \<Rightarrow> re \<Rightarrow> re" where
  "rep_min m r = Seq (times m r) (Star r)"

text \<open>
  The anchors \<^verbatim>\<open>^\<close> and \<^verbatim>\<open>$\<close>, without and with \<^verbatim>\<open>re.MULTILINE\<close>, the word
  boundary \<^verbatim>\<open>\b\<close>, and the look-arounds \<^verbatim>\<open>(?<!\w)\<close> and \<^verbatim>\<open>(?!\w)\<close>.
\<close>

definition bol :: re where
  "bol = Look (\<lambda>b a. b = [])"

definition eol :: re where
  "eol = Look (\<lambda>b a. a = [] \<or> a = [CHR 0x0A])"

definition bol_m :: re where
  "bol_m = Look (\<lambda>b a. b = [] \<or> hd b = CHR 0x0A)"

definition eol_m :: re where
  "eol_m = Look (\<lambda>b a. a = [] \<or> hd a = CHR 0x0A)"

definition word_before :: "string \<Rightarrow> bool" where
  "word_before b \<longleftrightarrow> (case b of [] \<Rightarrow> False | c # _ \<Rightarrow> is_word c)"

definition wordb :: re where
  "wordb = Look (\<lambda>b a. word_before b \<noteq> word_before a)"

definition not_after_word :: re where
  "not_after_word = Look (\<lambda>b a. \<not> word_before b)"

definition not_before_word :: re where
  "not_before_word = Look (\<lambda>b a. \<not> word_before a)"

subsection \<open>Searching\<close>

text \<open>
  \<^verbatim>\<open>re.search\<close> tries the start positions from left to right. The result holds the
  reversed text before the match, the text from its start, and the state at its end.
\<close>

type_synonym rx_match = "string \<times> string \<times> rx_state"

fun search_from :: "re \<Rightarrow> string \<Rightarrow> string \<Rightarrow> rx_match option" where
  "search_from r b a =
     (case ends r (b, a, []) of
        m # _ \<Rightarrow> Some (b, a, m)
      | [] \<Rightarrow> (case a of [] \<Rightarrow> None | c # cs \<Rightarrow> search_from r (c # b) cs))"

definition re_search_m :: "re \<Rightarrow> string \<Rightarrow> rx_match option" where
  "re_search_m r s = search_from r [] s"

definition re_search :: "re \<Rightarrow> string \<Rightarrow> bool" where
  "re_search r s \<longleftrightarrow> re_search_m r s \<noteq> None"

text \<open>\<^verbatim>\<open>re.match\<close>: a match at the start of the text only.\<close>

definition re_match_m :: "re \<Rightarrow> string \<Rightarrow> rx_match option" where
  "re_match_m r s = (case ends r ([], s, []) of m # _ \<Rightarrow> Some ([], s, m) | [] \<Rightarrow> None)"

definition re_match :: "re \<Rightarrow> string \<Rightarrow> bool" where
  "re_match r s \<longleftrightarrow> re_match_m r s \<noteq> None"

text \<open>\<^verbatim>\<open>m.start()\<close>, \<^verbatim>\<open>m.end()\<close>, \<^verbatim>\<open>m.group(0)\<close> and \<^verbatim>\<open>m.group(n)\<close>.\<close>

fun m_start :: "rx_match \<Rightarrow> nat" where
  "m_start (b, a, x) = length b"

fun m_end :: "rx_match \<Rightarrow> nat" where
  "m_end (b, a, (b', a', g)) = length b'"

fun m_text :: "rx_match \<Rightarrow> string" where
  "m_text (b, a, (b', a', g)) = take (length a - length a') a"

fun m_group :: "nat \<Rightarrow> rx_match \<Rightarrow> string option" where
  "m_group n (b, a, (b', a', g)) = map_of g n"

text \<open>
  \<^verbatim>\<open>re.finditer\<close>: the matches from left to right, each search starting where the match
  before it ended. After an empty match the search moves on by one character; no pattern
  of the code that is used this way matches the empty text.
\<close>

fun finditer_from :: "re \<Rightarrow> string \<Rightarrow> string \<Rightarrow> rx_match list" where
  "finditer_from r b a =
     (case search_from r b a of
        None \<Rightarrow> []
      | Some (b0, a0, (b', a', g)) \<Rightarrow>
          (b0, a0, (b', a', g)) #
            (if length a' < length a0 \<and> length a' < length a then finditer_from r b' a'
             else (case a' of
                     [] \<Rightarrow> []
                   | c # cs \<Rightarrow> if length cs < length a then finditer_from r (c # b') cs else [])))"

definition re_findall :: "re \<Rightarrow> string \<Rightarrow> string list" where
  "re_findall r s = map m_text (finditer_from r [] s)"

text \<open>\<^verbatim>\<open>re.split\<close> and \<^verbatim>\<open>re.sub\<close> for a pattern without groups.\<close>

fun split_at :: "string \<Rightarrow> nat \<Rightarrow> rx_match list \<Rightarrow> string list" where
  "split_at s i [] = [drop i s]"
| "split_at s i (m # ms) = substr s i (m_start m) # split_at s (m_end m) ms"

definition re_split :: "re \<Rightarrow> string \<Rightarrow> string list" where
  "re_split r s = split_at s 0 (finditer_from r [] s)"

definition re_sub :: "re \<Rightarrow> string \<Rightarrow> string \<Rightarrow> string" where
  "re_sub r repl s = str_join repl (re_split r s)"

subsection \<open>Groups\<close>

text \<open>
  For the proofs: a pattern without group \<open>n\<close> leaves that group as it is; \<open>grp_sat n Q r\<close>
  says that every match of \<open>r\<close> has captured group \<open>n\<close> with a text that satisfies
  \<open>Q\<close>, and \<open>consumes Q r\<close> that every match of \<open>r\<close> spans a text that satisfies \<open>Q\<close>.
\<close>

primrec no_group :: "nat \<Rightarrow> re \<Rightarrow> bool" where
  "no_group n (Cls p) = True"
| "no_group n Eps = True"
| "no_group n (Seq r1 r2) = (no_group n r1 \<and> no_group n r2)"
| "no_group n (Alt r1 r2) = (no_group n r1 \<and> no_group n r2)"
| "no_group n (Opt r) = no_group n r"
| "no_group n (Star r) = no_group n r"
| "no_group n (Lazy r) = no_group n r"
| "no_group n (Look p) = True"
| "no_group n (Grp k r) = (k \<noteq> n \<and> no_group n r)"

definition grp_sat :: "nat \<Rightarrow> (string \<Rightarrow> bool) \<Rightarrow> re \<Rightarrow> bool" where
  "grp_sat n Q r \<longleftrightarrow>
     (\<forall>x y. y \<in> set (ends r x) \<longrightarrow> (\<exists>t. map_of (snd (snd y)) n = Some t \<and> Q t))"

definition consumes :: "(string \<Rightarrow> bool) \<Rightarrow> re \<Rightarrow> bool" where
  "consumes Q r \<longleftrightarrow>
     (\<forall>b a g y. y \<in> set (ends r (b, a, g)) \<longrightarrow> Q (take (length a - length (fst (snd y))) a))"

subsection \<open>Facts about searching\<close>

declare search_from.simps [simp del] finditer_from.simps [simp del]

lemma search_from_Cls:
  "search_from (Cls p) b a \<noteq> None \<longleftrightarrow> (\<exists>c\<in>set a. p c)"
proof (induction a arbitrary: b)
  case Nil
  show ?case by (simp add: search_from.simps [of _ b "[]"])
next
  case (Cons c cs)
  show ?case using Cons [of "c # b"]
    by (simp add: search_from.simps [of _ b "c # cs"])
qed

lemma re_search_Cls: "re_search (Cls p) s \<longleftrightarrow> (\<exists>c\<in>set s. p c)"
  unfolding re_search_def re_search_m_def by (rule search_from_Cls)

lemma star_greedy_rel:
  assumes step: "\<And>x y. y \<in> set (f x) \<Longrightarrow> R x y"
    and refl: "\<And>x. R x x"
    and trans: "\<And>x y z. R x y \<Longrightarrow> R y z \<Longrightarrow> R x z"
  shows "y \<in> set (star_greedy n f x) \<Longrightarrow> R x y"
proof (induction n arbitrary: x)
  case 0
  then show ?case by (simp add: refl)
next
  case (Suc n)
  from Suc.prems consider "y = x"
    | z where "z \<in> set (f x)" "y \<in> set (star_greedy n f z)"
    by (auto split: if_splits)
  then show ?case
  proof cases
    case 1
    then show ?thesis by (simp add: refl)
  next
    case 2
    then show ?thesis using Suc.IH step trans by blast
  qed
qed

lemma star_lazy_rel:
  assumes step: "\<And>x y. y \<in> set (f x) \<Longrightarrow> R x y"
    and refl: "\<And>x. R x x"
    and trans: "\<And>x y z. R x y \<Longrightarrow> R y z \<Longrightarrow> R x z"
  shows "y \<in> set (star_lazy n f x) \<Longrightarrow> R x y"
proof (induction n arbitrary: x)
  case 0
  then show ?case by (simp add: refl)
next
  case (Suc n)
  from Suc.prems consider "y = x"
    | z where "z \<in> set (f x)" "y \<in> set (star_lazy n f z)"
    by (auto split: if_splits)
  then show ?case
  proof cases
    case 1
    then show ?thesis by (simp add: refl)
  next
    case 2
    then show ?thesis using Suc.IH step trans by blast
  qed
qed

lemma ends_no_group:
  "no_group n r \<Longrightarrow> y \<in> set (ends r x) \<Longrightarrow> map_of (snd (snd y)) n = map_of (snd (snd x)) n"
proof (induction r arbitrary: x y)
  case (Cls p)
  then show ?case by (auto split: prod.splits list.splits if_splits)
next
  case Eps
  then show ?case by simp
next
  case (Seq r1 r2)
  from Seq.prems obtain z where z: "z \<in> set (ends r1 x)" "y \<in> set (ends r2 z)"
    by auto
  from Seq.prems have "no_group n r1" "no_group n r2" by simp_all
  with z Seq.IH(1) [of z x] Seq.IH(2) [of y z] show ?case by simp
next
  case (Alt r1 r2)
  from Alt.prems have "y \<in> set (ends r1 x) \<or> y \<in> set (ends r2 x)" by simp
  moreover from Alt.prems have "no_group n r1" "no_group n r2" by simp_all
  ultimately show ?case using Alt.IH by blast
next
  case (Opt r)
  from Opt.prems have "y \<in> set (ends r x) \<or> y = x" by auto
  moreover from Opt.prems have "no_group n r" by simp
  ultimately show ?case using Opt.IH by blast
next
  case (Star r)
  have "map_of (snd (snd y)) n = map_of (snd (snd x)) n"
    if "y \<in> set (star_greedy k (ends r) x)" for k
    using that
    by (rule star_greedy_rel [where R = "\<lambda>x y. map_of (snd (snd y)) n = map_of (snd (snd x)) n",
          rotated -1]) (use Star in auto)
  with Star.prems show ?case by simp
next
  case (Lazy r)
  have "map_of (snd (snd y)) n = map_of (snd (snd x)) n"
    if "y \<in> set (star_lazy k (ends r) x)" for k
    using that
    by (rule star_lazy_rel [where R = "\<lambda>x y. map_of (snd (snd y)) n = map_of (snd (snd x)) n",
          rotated -1]) (use Lazy in auto)
  with Lazy.prems show ?case by simp
next
  case (Look p)
  then show ?case by (auto split: prod.splits if_splits)
next
  case (Grp k r)
  obtain b a g where x: "x = (b, a, g)" by (cases x) auto
  from Grp.prems x obtain b' a' g' where
    z: "(b', a', g') \<in> set (ends r (b, a, g))" and
    y: "y = (b', a', (k, take (length a - length a') a) # g')"
    by auto
  from Grp.prems have "k \<noteq> n" "no_group n r" by simp_all
  with Grp.IH [OF _ z] x y show ?case by simp
qed

lemma grp_sat_Grp:
  assumes "consumes Q r"
  shows "grp_sat n Q (Grp n r)"
  unfolding grp_sat_def
proof (intro allI impI)
  fix x y
  assume a: "y \<in> set (ends (Grp n r) x)"
  obtain b a g where x: "x = (b, a, g)" by (cases x) auto
  from a x obtain b' a' g' where
    z: "(b', a', g') \<in> set (ends r (b, a, g))" and
    y: "y = (b', a', (n, take (length a - length a') a) # g')"
    by auto
  from assms z have "Q (take (length a - length a') a)"
    unfolding consumes_def by fastforce
  with y show "\<exists>t. map_of (snd (snd y)) n = Some t \<and> Q t" by simp
qed

lemma grp_sat_Seq1:
  assumes "grp_sat n Q r1" and "no_group n r2"
  shows "grp_sat n Q (Seq r1 r2)"
  unfolding grp_sat_def
proof (intro allI impI)
  fix x y
  assume "y \<in> set (ends (Seq r1 r2) x)"
  then obtain z where z: "z \<in> set (ends r1 x)" "y \<in> set (ends r2 z)" by auto
  from assms(1) z(1) obtain t where "map_of (snd (snd z)) n = Some t" "Q t"
    unfolding grp_sat_def by blast
  with ends_no_group [OF assms(2) z(2)]
  show "\<exists>t. map_of (snd (snd y)) n = Some t \<and> Q t" by simp
qed

lemma grp_sat_Seq2:
  assumes "grp_sat n Q r2"
  shows "grp_sat n Q (Seq r1 r2)"
  unfolding grp_sat_def
proof (intro allI impI)
  fix x y
  assume "y \<in> set (ends (Seq r1 r2) x)"
  then obtain z where z: "z \<in> set (ends r1 x)" "y \<in> set (ends r2 z)" by auto
  with assms show "\<exists>t. map_of (snd (snd y)) n = Some t \<and> Q t"
    unfolding grp_sat_def by blast
qed

lemma search_from_mem:
  "search_from r b a = Some (b0, a0, m) \<Longrightarrow> m \<in> set (ends r (b0, a0, []))"
proof (induction a arbitrary: b)
  case Nil
  then show ?case
    by (cases "ends r (b, [], [])") (auto simp: search_from.simps [of r b "[]"])
next
  case (Cons c cs)
  then show ?case
    by (cases "ends r (b, c # cs, [])") (auto simp: search_from.simps [of r b "c # cs"])
qed

lemma re_search_m_group:
  assumes "re_search_m r s = Some m" and "grp_sat n Q r"
  shows "\<exists>t. m_group n m = Some t \<and> Q t"
proof -
  obtain b0 a0 x where m: "m = (b0, a0, x)" by (cases m) auto
  with assms(1) have "x \<in> set (ends r (b0, a0, []))"
    unfolding re_search_m_def by (auto dest: search_from_mem)
  with assms(2) obtain t where "map_of (snd (snd x)) n = Some t" "Q t"
    unfolding grp_sat_def by blast
  then show ?thesis by (cases x) (auto simp: m)
qed

lemma ends_shrinks:
  "y \<in> set (ends r x) \<Longrightarrow> length (fst (snd y)) \<le> length (fst (snd x))"
proof (induction r arbitrary: x y)
  case (Cls p)
  then show ?case by (auto split: prod.splits list.splits if_splits)
next
  case Eps
  then show ?case by simp
next
  case (Seq r1 r2)
  from Seq.prems obtain z where z: "z \<in> set (ends r1 x)" "y \<in> set (ends r2 z)"
    by auto
  with Seq.IH(1) [of z x] Seq.IH(2) [of y z] show ?case by simp
next
  case (Alt r1 r2)
  from Alt.prems have "y \<in> set (ends r1 x) \<or> y \<in> set (ends r2 x)" by simp
  then show ?case using Alt.IH(1) [of y x] Alt.IH(2) [of y x] by auto
next
  case (Opt r)
  from Opt.prems have "y \<in> set (ends r x) \<or> y = x" by auto
  then show ?case using Opt.IH [of y x] by auto
next
  case (Star r)
  have "length (fst (snd y)) \<le> length (fst (snd x))"
    if "y \<in> set (star_greedy k (ends r) x)" for k
    using that
    by (rule star_greedy_rel [where R = "\<lambda>x y. length (fst (snd y)) \<le> length (fst (snd x))",
          rotated -1]) (use Star in auto)
  with Star.prems show ?case by simp
next
  case (Lazy r)
  have "length (fst (snd y)) \<le> length (fst (snd x))"
    if "y \<in> set (star_lazy k (ends r) x)" for k
    using that
    by (rule star_lazy_rel [where R = "\<lambda>x y. length (fst (snd y)) \<le> length (fst (snd x))",
          rotated -1]) (use Lazy in auto)
  with Lazy.prems show ?case by simp
next
  case (Look p)
  then show ?case by (auto split: prod.splits if_splits)
next
  case (Grp k r)
  obtain b a g where x: "x = (b, a, g)" by (cases x) auto
  from Grp.prems x obtain b' a' g' where
    z: "(b', a', g') \<in> set (ends r (b, a, g))" and
    y: "y = (b', a', (k, take (length a - length a') a) # g')"
    by auto
  with Grp.IH [OF z] x y show ?case by simp
qed

lemma ends_Cls_iff:
  "y \<in> set (ends (Cls p) (b, a, g)) \<longleftrightarrow> (\<exists>c cs. a = c # cs \<and> p c \<and> y = (c # b, cs, g))"
  by (cases a) auto

lemma ends_chr_iff:
  "y \<in> set (ends (chr c) (b, a, g)) \<longleftrightarrow> (\<exists>cs. a = c # cs \<and> y = (c # b, cs, g))"
  unfolding chr_def ends_Cls_iff by auto

lemma ends_Seq_iff:
  "y \<in> set (ends (Seq r1 r2) x) \<longleftrightarrow> (\<exists>z\<in>set (ends r1 x). y \<in> set (ends r2 z))"
  by auto

lemma ends_Seq_chr:
  "y \<in> set (ends (Seq (chr c) r) (b, a, g)) \<longleftrightarrow> (\<exists>cs. a = c # cs \<and> y \<in> set (ends r (c # b, cs, g)))"
  by (cases a) (auto simp: chr_def)

lemma concat_map_concat:
  "concat (map f (concat (map g xs))) = concat (map (\<lambda>x. concat (map f (g x))) xs)"
  by (induction xs) simp_all

lemma ends_Seq_assoc: "ends (Seq (Seq r1 r2) r3) x = ends (Seq r1 (Seq r2 r3)) x"
  by (simp add: concat_map_concat)

section \<open>Data model\<close>

text \<open>
  The two table parsers (\<^verbatim>\<open>src/parsers/table_parser.py\<close> and
  \<^verbatim>\<open>src/parsers/enhanced_table_parser.py\<close>) each declare a dataclass \<^verbatim>\<open>Table\<close>.
  Their first nine fields coincide; they are the record \<open>TableCore\<close>. The basic parser adds
  \<^verbatim>\<open>raw_lines\<close>, the enhanced parser adds four metrics.

  Line numbers and positions are Python integers (\<open>int\<close>). A confidence is one of the
  literals \<^verbatim>\<open>0.95\<close>, \<^verbatim>\<open>0.9\<close>, \<^verbatim>\<open>0.8\<close>; the code only negates and compares
  confidences, so they are modelled as rationals, on which negation and order agree with
  the floating-point numbers the literals denote.
\<close>

record TableCore =
  content :: "string list list"
  start_pos :: int
  end_pos :: int
  start_line :: int
  end_line :: int
  title :: "string option"
  confidence :: rat
  table_type :: string
  original_text :: string


record ETable = TableCore +
  column_count :: int
  row_count :: int
  has_monetary_data :: bool
  has_percentage_data :: bool

section \<open>Region deduplication\<close>

subsection \<open>\<^verbatim>\<open>TableParser._deduplicate_tables\<close>\<close>

text \<open>
  The inner loop of the basic parser looks for the first already kept table whose line range
  contains the start line of the candidate. The candidate replaces it when it has strictly
  higher confidence (\<^verbatim>\<open>deduped.remove(existing); deduped.append(table)\<close>), and is
  dropped otherwise. \<^verbatim>\<open>list.remove\<close> deletes the first equal element, which is
  \<^const>\<open>remove1\<close>. \<^verbatim>\<open>list.sort\<close> is stable, as is \<^const>\<open>sort_key\<close>.
\<close>

fun tp_first_overlap :: "'a TableCore_scheme \<Rightarrow> 'a TableCore_scheme list \<Rightarrow> 'a TableCore_scheme option" where
  "tp_first_overlap table [] = None"
| "tp_first_overlap table (existing # rest) =
     (if start_line table \<ge> start_line existing \<and> start_line table \<le> end_line existing
      then Some existing
      else tp_first_overlap table rest)"

definition tp_dedup_step :: "'a TableCore_scheme list \<Rightarrow> 'a TableCore_scheme \<Rightarrow> 'a TableCore_scheme list" where
  "tp_dedup_step deduped table =
     (case tp_first_overlap table deduped of
        Some existing \<Rightarrow>
          if confidence table > confidence existing
          then remove1 existing deduped @ [table]
          else deduped
      | None \<Rightarrow> deduped @ [table])"

definition tp_deduplicate_tables :: "'a TableCore_scheme list \<Rightarrow> 'a TableCore_scheme list" where
  "tp_deduplicate_tables tables =
     (if tables = [] then tables
      else foldl tp_dedup_step [] (sort_key start_line tables))"

subsection \<open>\<^verbatim>\<open>EnhancedTableParser._deduplicate_tables\<close>\<close>

text \<open>
  The enhanced parser sorts by \<^verbatim>\<open>(start_line, -confidence)\<close> and tests the closed
  intervals for intersection. Its inner loop only ever sets \<^verbatim>\<open>overlap\<close>: a kept table
  that the candidate beats is skipped, not removed.
\<close>

fun etp_overlap :: "'a TableCore_scheme \<Rightarrow> 'a TableCore_scheme list \<Rightarrow> bool" where
  "etp_overlap table [] = False"
| "etp_overlap table (existing # rest) =
     (if start_line table \<le> end_line existing \<and> end_line table \<ge> start_line existing
      then (if confidence table \<le> confidence existing then True
            else etp_overlap table rest)
      else etp_overlap table rest)"

definition etp_dedup_step :: "'a TableCore_scheme list \<Rightarrow> 'a TableCore_scheme \<Rightarrow> 'a TableCore_scheme list" where
  "etp_dedup_step deduped table =
     (if \<not> etp_overlap table deduped then deduped @ [table] else deduped)"

definition etp_deduplicate_tables :: "'a TableCore_scheme list \<Rightarrow> 'a TableCore_scheme list" where
  "etp_deduplicate_tables tables =
     (if tables = [] then tables
      else foldl etp_dedup_step [] (sort_key (\<lambda>t. (start_line t, - confidence t)) tables))"

subsection \<open>The coverage invariant\<close>

text \<open>
  The overlap test of the specification, and the property that no two positions of a list
  hold intersecting tables.
\<close>

definition intersects :: "'a TableCore_scheme \<Rightarrow> 'a TableCore_scheme \<Rightarrow> bool" where
  "intersects candidate kept \<longleftrightarrow>
     start_line candidate \<le> end_line kept \<and> end_line candidate \<ge> start_line kept"

fun disjoint_regions :: "'a TableCore_scheme list \<Rightarrow> bool" where
  "disjoint_regions [] = True"
| "disjoint_regions (t # ts) \<longleftrightarrow> list_all (\<lambda>u. \<not> intersects t u) ts \<and> disjoint_regions ts"


section \<open>Theorems about deduplication\<close>

lemma intersects_sym: "intersects a b \<longleftrightarrow> intersects b a"
  by (auto simp: intersects_def)

lemma disjoint_regions_append:
  "disjoint_regions (xs @ [t]) \<longleftrightarrow> disjoint_regions xs \<and> (\<forall>x\<in>set xs. \<not> intersects x t)"
  by (induction xs) (auto simp: list_all_iff)

lemma disjoint_regions_remove1:
  "disjoint_regions xs \<Longrightarrow> disjoint_regions (remove1 e xs)"
proof (induction xs)
  case Nil
  then show ?case by simp
next
  case (Cons x xs)
  have "set (remove1 e xs) \<subseteq> set xs" by (rule set_remove1_subset)
  with Cons show ?case by (auto simp: list_all_iff)
qed

lemma disjoint_regions_pair:
  "disjoint_regions xs \<Longrightarrow> a \<in> set xs \<Longrightarrow> b \<in> set (remove1 a xs) \<Longrightarrow> \<not> intersects a b"
proof (induction xs)
  case Nil
  then show ?case by simp
next
  case (Cons x xs)
  show ?case
  proof (cases "a = x")
    case True
    with Cons.prems show ?thesis by (auto simp: list_all_iff)
  next
    case False
    with Cons.prems have a: "a \<in> set xs" and b: "b = x \<or> b \<in> set (remove1 a xs)"
      by auto
    from b show ?thesis
    proof
      assume "b = x"
      with Cons.prems a show ?thesis by (auto simp: list_all_iff intersects_sym [of a])
    next
      assume "b \<in> set (remove1 a xs)"
      with Cons a show ?thesis by auto
    qed
  qed
qed

lemma tp_first_overlap_None:
  "tp_first_overlap t xs = None \<Longrightarrow> x \<in> set xs \<Longrightarrow> start_line x \<le> start_line t
   \<Longrightarrow> end_line x < start_line t"
  by (induction xs) (auto split: if_splits)

lemma tp_first_overlap_Some:
  "tp_first_overlap t xs = Some e \<Longrightarrow>
     e \<in> set xs \<and> start_line e \<le> start_line t \<and> start_line t \<le> end_line e"
  by (induction xs) (auto split: if_splits)

lemma tp_dedup_step_set:
  "set (tp_dedup_step acc t) \<subseteq> insert t (set acc)"
proof -
  have "set (remove1 e acc) \<subseteq> set acc" for e by (rule set_remove1_subset)
  then show ?thesis
    by (auto simp: tp_dedup_step_def split: option.splits)
qed

lemma tp_dedup_step_disjoint:
  assumes d: "disjoint_regions acc"
    and le: "\<forall>x\<in>set acc. start_line x \<le> start_line t"
  shows "disjoint_regions (tp_dedup_step acc t)"
proof (cases "tp_first_overlap t acc")
  case None
  have "\<not> intersects x t" if "x \<in> set acc" for x
    using tp_first_overlap_None [OF None that] le that by (auto simp: intersects_def)
  with d None show ?thesis
    by (simp add: tp_dedup_step_def disjoint_regions_append)
next
  case (Some e)
  note e = tp_first_overlap_Some [OF Some]
  show ?thesis
  proof (cases "confidence t > confidence e")
    case False
    with Some d show ?thesis by (simp add: tp_dedup_step_def)
  next
    case True
    have "\<not> intersects x t" if x: "x \<in> set (remove1 e acc)" for x
    proof -
      from x set_remove1_subset [of e acc] have xa: "x \<in> set acc" by auto
      from disjoint_regions_pair [OF d _ x] e have "\<not> intersects e x" by simp
      with e le xa show ?thesis by (auto simp: intersects_def)
    qed
    with Some True d show ?thesis
      by (simp add: tp_dedup_step_def disjoint_regions_append disjoint_regions_remove1)
  qed
qed

lemma tp_foldl_disjoint:
  "disjoint_regions acc \<Longrightarrow> sorted (map start_line ts)
   \<Longrightarrow> \<forall>x\<in>set acc. \<forall>t\<in>set ts. start_line x \<le> start_line t
   \<Longrightarrow> disjoint_regions (foldl tp_dedup_step acc ts)"
proof (induction ts arbitrary: acc)
  case Nil
  then show ?case by simp
next
  case (Cons t ts)
  have d: "disjoint_regions (tp_dedup_step acc t)"
    using Cons.prems by (intro tp_dedup_step_disjoint) auto
  have "\<forall>x\<in>set (tp_dedup_step acc t). \<forall>u\<in>set ts. start_line x \<le> start_line u"
    using Cons.prems tp_dedup_step_set [of acc t] by auto
  with d Cons show ?case by simp
qed

text \<open>
  The basic parser keeps the coverage invariant on every input: its result never holds two
  intersecting tables.
\<close>

lemma tp_deduplicate_tables_disjoint:
  "disjoint_regions (tp_deduplicate_tables tables)"
proof -
  have "sorted (map start_line (sort_key start_line tables))"
    by (rule sorted_sort_key)
  then have "disjoint_regions (foldl tp_dedup_step [] (sort_key start_line tables))"
    by (intro tp_foldl_disjoint) auto
  then show ?thesis by (simp add: tp_deduplicate_tables_def)
qed


text \<open>
  Claim C6. Of two candidates, one of confidence 0.95 on lines 10 to 20 and one of
  confidence 0.90 on lines 15 to 25, both deduplications keep only the first, in whichever
  order the two are given and whatever their other fields hold.
\<close>

theorem dedup_precedence:
  fixes a b :: "'a TableCore_scheme"
  defines "p \<equiv> a\<lparr>start_line := 10, end_line := 20, confidence := 19/20\<rparr>"
    and "q \<equiv> b\<lparr>start_line := 15, end_line := 25, confidence := 9/10\<rparr>"
  shows "tp_deduplicate_tables [p, q] = [p] \<and> tp_deduplicate_tables [q, p] = [p]
       \<and> etp_deduplicate_tables [p, q] = [p] \<and> etp_deduplicate_tables [q, p] = [p]"
  by (simp add: p_def q_def tp_deduplicate_tables_def tp_dedup_step_def
      etp_deduplicate_tables_def etp_dedup_step_def)

section \<open>Dual-view reconciler: \<^verbatim>\<open>MDNAExtractor._map_positions_to_lines\<close>\<close>

text \<open>
  The loop over \<^verbatim>\<open>enumerate(lines)\<close>, with the loop variables passed along. It
  returns at the \<^verbatim>\<open>break\<close>, or when the lines are exhausted.
\<close>

fun map_positions_loop :: "int \<Rightarrow> int \<Rightarrow> string list \<Rightarrow> int \<Rightarrow> int \<Rightarrow> int \<Rightarrow> int \<Rightarrow> int \<times> int" where
  "map_positions_loop start_offset end_offset [] i current_pos start_ln end_ln = (start_ln, end_ln)"
| "map_positions_loop start_offset end_offset (line # rest) i current_pos start_ln end_ln =
     (let line_start = current_pos;
          line_end = current_pos + int (length line);
          start_ln' = (if line_start \<le> start_offset \<and> start_offset \<le> line_end then i else start_ln)
      in if line_start \<le> end_offset \<and> end_offset \<le> line_end then (start_ln', i)
         else map_positions_loop start_offset end_offset rest (i + 1) (line_end + 1) start_ln' end_ln)"

definition map_positions_to_lines :: "string \<Rightarrow> int \<Rightarrow> int \<Rightarrow> int \<times> int" where
  "map_positions_to_lines doc start_offset end_offset =
     (let lines = split_on CHR 0x0A doc
      in map_positions_loop start_offset end_offset lines 0 0 0 (int (length lines) - 1))"

text \<open>The character ranges of the lines, as the loop computes them.\<close>

fun line_ranges :: "int \<Rightarrow> string list \<Rightarrow> (int \<times> int) list" where
  "line_ranges current_pos [] = []"
| "line_ranges current_pos (line # rest) =
     (current_pos, current_pos + int (length line))
       # line_ranges (current_pos + int (length line) + 1) rest"

definition contained :: "string \<Rightarrow> int \<Rightarrow> bool" where
  "contained doc pos \<longleftrightarrow>
     list_ex (\<lambda>(line_start, line_end). line_start \<le> pos \<and> pos \<le> line_end)
       (line_ranges 0 (split_on CHR 0x0A doc))"

text \<open>
  For the proofs: the index of the line whose range holds offset \<open>p\<close>, counted from
  the first line of \<open>ls\<close>, and the last offset that \<open>ls\<close> covers.
\<close>

fun line_of :: "string list \<Rightarrow> int \<Rightarrow> int" where
  "line_of [] p = 0"
| "line_of (line # rest) p = (if p \<le> int (length line) then 0 else 1 + line_of rest (p - int (length line) - 1))"

fun total_chars :: "string list \<Rightarrow> int" where
  "total_chars [] = -1"
| "total_chars (line # rest) = int (length line) + 1 + total_chars rest"

subsection \<open>Theorems about the reconciler\<close>

lemma total_chars_split_on: "total_chars (split_on sep s) = int (length s)"
  by (induction s) (auto split: list.splits simp: split_on_nonempty)

lemma line_of_bounds: "ls \<noteq> [] \<Longrightarrow> 0 \<le> line_of ls p \<and> (p \<le> total_chars ls \<longrightarrow> line_of ls p < int (length ls))"
proof (induction ls arbitrary: p)
  case Nil then show ?case by simp
next
  case (Cons l ls)
  show ?case
  proof (cases ls)
    case Nil then show ?thesis by auto
  next
    case (Cons a as)
    with Cons.IH[of "p - int (length l) - 1"] show ?thesis by auto
  qed
qed

lemma line_of_nonneg: "0 \<le> line_of ls p"
  by (induction ls arbitrary: p) auto

lemma line_of_mono: "p \<le> q \<Longrightarrow> line_of ls p \<le> line_of ls q"
proof (induction ls arbitrary: p q)
  case Nil then show ?case by simp
next
  case (Cons l ls)
  have "0 \<le> line_of ls r" for r by (rule line_of_nonneg)
  with Cons.IH[of "p - int (length l) - 1" "q - int (length l) - 1"] Cons.prems show ?case by auto
qed


lemma loop_end:
  "cur \<le> e \<Longrightarrow> e \<le> cur + total_chars ls \<Longrightarrow>
   snd (map_positions_loop s e ls i cur sl el) = i + line_of ls (e - cur)"
proof (induction ls arbitrary: i cur sl)
  case Nil then show ?case by simp
next
  case (Cons l ls)
  show ?case
  proof (cases "e \<le> cur + int (length l)")
    case True
    with Cons.prems show ?thesis by (simp add: Let_def)
  next
    case False
    have eq: "e - (cur + int (length l) + 1) = e - cur - int (length l) - 1" by simp
    have pre: "cur + int (length l) + 1 \<le> e" "e \<le> (cur + int (length l) + 1) + total_chars ls"
      using False Cons.prems by simp_all
    have "snd (map_positions_loop s e ls (i + 1) (cur + int (length l) + 1) sl' el)
          = (i + 1) + line_of ls (e - (cur + int (length l) + 1))" for sl'
      by (rule Cons.IH [OF pre])
    moreover have "line_of (l # ls) (e - cur) = 1 + line_of ls (e - cur - int (length l) - 1)"
      using False by simp
    ultimately show ?thesis using False
      by (simp add: Let_def eq)
  qed
qed

lemma loop_start_past:
  "s < cur \<Longrightarrow> fst (map_positions_loop s e ls i cur sl el) = sl"
  by (induction ls arbitrary: i cur) (simp_all add: Let_def)

lemma loop_start:
  "cur \<le> s \<Longrightarrow> s \<le> e \<Longrightarrow> e \<le> cur + total_chars ls \<Longrightarrow>
   fst (map_positions_loop s e ls i cur sl el) = i + line_of ls (s - cur)"
proof (induction ls arbitrary: i cur sl)
  case Nil then show ?case by simp
next
  case (Cons l ls)
  show ?case
  proof (cases "e \<le> cur + int (length l)")
    case True
    with Cons.prems show ?thesis by (simp add: Let_def)
  next
    case False
    note nf = False
    show ?thesis
    proof (cases "s \<le> cur + int (length l)")
      case True
      then have "s < cur + int (length l) + 1" by simp
      then have "fst (map_positions_loop s e ls (i + 1) (cur + int (length l) + 1) i el) = i"
        by (rule loop_start_past)
      with True nf Cons.prems show ?thesis
        by (simp add: Let_def)
    next
      case False
      have eq: "s - (cur + int (length l) + 1) = s - cur - int (length l) - 1" by simp
      have pre: "cur + int (length l) + 1 \<le> s" "s \<le> e"
        "e \<le> (cur + int (length l) + 1) + total_chars ls"
        using False Cons.prems by simp_all
      have "fst (map_positions_loop s e ls (i + 1) (cur + int (length l) + 1) sl el)
          = (i + 1) + line_of ls (s - (cur + int (length l) + 1))"
        by (rule Cons.IH [OF pre])
      moreover have "line_of (l # ls) (s - cur) = 1 + line_of ls (s - cur - int (length l) - 1)"
        using False by simp
      ultimately show ?thesis using False nf
        by (simp add: Let_def eq)
    qed
  qed
qed

lemma loop_not_contained:
  "\<not> list_ex (\<lambda>(a, b). a \<le> e \<and> e \<le> b) (line_ranges cur ls) \<Longrightarrow>
   snd (map_positions_loop s e ls i cur sl el) = el"
  by (induction ls arbitrary: i cur sl) (auto simp: Let_def)

lemma map_positions_valid:
  assumes "0 \<le> s" "s \<le> e" "e \<le> int (length doc)"
  shows "map_positions_to_lines doc s e =
     (line_of (split_on CHR 0x0A doc) s, line_of (split_on CHR 0x0A doc) e)"
proof -
  let ?ls = "split_on CHR 0x0A doc"
  have t: "total_chars ?ls = int (length doc)" by (rule total_chars_split_on)
  have "fst (map_positions_loop s e ?ls 0 0 0 (int (length ?ls) - 1)) = 0 + line_of ?ls (s - 0)"
    using assms t by (intro loop_start) auto
  moreover have "snd (map_positions_loop s e ?ls 0 0 0 (int (length ?ls) - 1)) = 0 + line_of ?ls (e - 0)"
    using assms t by (intro loop_end) auto
  ultimately show ?thesis by (simp add: map_positions_to_lines_def Let_def prod_eq_iff)
qed

text \<open>
  Claim C5. For offsets with \<open>0 \<le> start \<le> end \<le> length\<close> of the parsing-view text,
  the reconciler returns \<open>(start_ln, end_ln)\<close> with
  \<open>0 \<le> start_ln \<le> end_ln < number of lines\<close>; on such offsets each returned
  line index is non-decreasing in its offset; and whenever the end offset lies in no
  line's range \<open>[line_start, line_end]\<close> (whatever the start offset), the end line is the
  index of the last line.
\<close>

theorem map_positions_to_lines_spec:
  fixes doc :: string
  defines "n \<equiv> int (length (split_on CHR 0x0A doc))"
  shows "(0 \<le> s \<and> s \<le> e \<and> e \<le> int (length doc) \<longrightarrow>
            0 \<le> fst (map_positions_to_lines doc s e)
          \<and> fst (map_positions_to_lines doc s e) \<le> snd (map_positions_to_lines doc s e)
          \<and> snd (map_positions_to_lines doc s e) < n)
       \<and> (0 \<le> s \<and> s \<le> e \<and> e \<le> int (length doc)
          \<and> 0 \<le> s' \<and> s' \<le> e' \<and> e' \<le> int (length doc) \<longrightarrow>
            (s \<le> s' \<longrightarrow> fst (map_positions_to_lines doc s e) \<le> fst (map_positions_to_lines doc s' e'))
          \<and> (e \<le> e' \<longrightarrow> snd (map_positions_to_lines doc s e) \<le> snd (map_positions_to_lines doc s' e')))
       \<and> (\<not> contained doc e'' \<longrightarrow> snd (map_positions_to_lines doc s'' e'') = n - 1)"
proof (intro conjI impI)
  let ?ls = "split_on CHR 0x0A doc"
  have ne: "?ls \<noteq> []" by (rule split_on_nonempty)
  have t: "total_chars ?ls = int (length doc)" by (rule total_chars_split_on)
  { assume a: "0 \<le> s \<and> s \<le> e \<and> e \<le> int (length doc)"
    then have v: "map_positions_to_lines doc s e = (line_of ?ls s, line_of ?ls e)"
      by (intro map_positions_valid) auto
    show "0 \<le> fst (map_positions_to_lines doc s e)"
      using v line_of_bounds [OF ne] by simp
    show "fst (map_positions_to_lines doc s e) \<le> snd (map_positions_to_lines doc s e)"
      using v a line_of_mono by simp
    show "snd (map_positions_to_lines doc s e) < n"
      using v a t line_of_bounds [OF ne, of e] by (simp add: n_def) }
  { assume a: "0 \<le> s \<and> s \<le> e \<and> e \<le> int (length doc)
          \<and> 0 \<le> s' \<and> s' \<le> e' \<and> e' \<le> int (length doc)"
    then have v: "map_positions_to_lines doc s e = (line_of ?ls s, line_of ?ls e)"
      and v': "map_positions_to_lines doc s' e' = (line_of ?ls s', line_of ?ls e')"
      by (auto intro!: map_positions_valid)
    show "fst (map_positions_to_lines doc s e) \<le> fst (map_positions_to_lines doc s' e')"
      if "s \<le> s'" using that v v' line_of_mono by simp
    show "snd (map_positions_to_lines doc s e) \<le> snd (map_positions_to_lines doc s' e')"
      if "e \<le> e'" using that v v' line_of_mono by simp }
  { assume "\<not> contained doc e''"
    then show "snd (map_positions_to_lines doc s'' e'') = n - 1"
      by (simp add: contained_def map_positions_to_lines_def Let_def loop_not_contained n_def) }
qed

theorem map_positions_to_lines_spec_witness:
  "(0::int) \<le> 1 \<and> (1::int) \<le> 4 \<and> 4 \<le> int (length ''ab\<newline>cd'')
   \<and> map_positions_to_lines ''ab\<newline>cd'' 1 4 = (0, 1)
   \<and> (0::int) \<le> 3 \<and> (3::int) \<le> 5 \<and> 5 \<le> int (length ''ab\<newline>cd'')
   \<and> map_positions_to_lines ''ab\<newline>cd'' 3 5 = (1, 1)
   \<and> \<not> contained ''ab\<newline>cd'' 9
   \<and> snd (map_positions_to_lines ''ab\<newline>cd'' 1 9) = int (length (split_on CHR 0x0A ''ab\<newline>cd'')) - 1"
  using map_positions_to_lines_spec [where doc = "''ab\<newline>cd''" and s = 1 and e = 4
      and s' = 3 and e' = 5 and s'' = 1 and e'' = 9]
  by (simp add: map_positions_to_lines_def contained_def)

section \<open>Filing metadata: \<^verbatim>\<open>MDNAExtractor._create_filing_from_text\<close>\<close>

text \<open>
  The class \<^verbatim>\<open>Filing\<close> lives in \<^verbatim>\<open>src/models/filing.py\<close>, which is not part of the
  sources at hand; its fields are those that \<^verbatim>\<open>_create_filing_from_text\<close> passes to
  the constructor. A path is represented by its final component \<^verbatim>\<open>file_path.name\<close>, the
  only part that the metadata functions read, and the size that \<^verbatim>\<open>stat\<close> reports is
  an argument.

  Every \<^verbatim>\<open>datetime\<close> of the extractor comes from \<^verbatim>\<open>strptime\<close> with a format of
  year, month and day, so its time of day is midnight and only the date is kept.
\<close>

record datetime =
  dt_year :: nat
  dt_month :: nat
  dt_day :: nat

record Filing =
  file_path :: string
  cik :: string
  company_name :: string
  form_type :: string
  filing_date :: "datetime option"
  file_size :: int

subsection \<open>\<^verbatim>\<open>datetime.strptime\<close>\<close>

text \<open>
  \<^verbatim>\<open>strptime\<close> turns the format into a regular expression with one group per
  directive, matches it at the start of the text, rejects a match that leaves text over,
  and then builds the date, which rejects year 0 and a day that the month does not have.
  Each rejection is a \<^verbatim>\<open>ValueError\<close>, here \<open>None\<close>.
\<close>

definition directive_Y :: re where
  "directive_Y = times 4 digit"

definition directive_m :: re where
  "directive_m = alts [Seq (chr CHR ''1'') (oneof ''012''),
                       Seq (chr CHR ''0'') (oneof ''123456789''),
                       oneof ''123456789'']"

definition directive_d :: re where
  "directive_d = alts [Seq (chr CHR ''3'') (oneof ''01''),
                       Seq (oneof ''12'') digit,
                       Seq (chr CHR ''0'') (oneof ''123456789''),
                       oneof ''123456789'',
                       Seq (chr CHR '' '') (oneof ''123456789'')]"

text \<open>The formats \<^verbatim>\<open>'%Y%m%d'\<close> and \<^verbatim>\<open>'%Y-%m-%d'\<close>.\<close>

definition format_Ymd :: re where
  "format_Ymd = seqs [Grp 1 directive_Y, Grp 2 directive_m, Grp 3 directive_d]"

definition format_Y_m_d :: re where
  "format_Y_m_d = seqs [Grp 1 directive_Y, chr CHR ''-'', Grp 2 directive_m, chr CHR ''-'',
                        Grp 3 directive_d]"

definition digit_val :: "char \<Rightarrow> nat" where
  "digit_val c = (case map_of (zip ''0123456789'' [0 ..< 10]) c of Some v \<Rightarrow> v | None \<Rightarrow> 0)"

text \<open>\<^verbatim>\<open>int(text)\<close> for the text of a group: digits, possibly after a space.\<close>

definition int_of_text :: "string \<Rightarrow> nat" where
  "int_of_text s = foldl (\<lambda>n c. 10 * n + digit_val c) 0 (str_strip s)"

definition is_leap :: "nat \<Rightarrow> bool" where
  "is_leap y \<longleftrightarrow> (y mod 4 = 0 \<and> y mod 100 \<noteq> 0) \<or> y mod 400 = 0"

definition days_in_month :: "nat \<Rightarrow> nat \<Rightarrow> nat" where
  "days_in_month y m =
     (if m = 2 then (if is_leap y then 29 else 28)
      else if m = 4 \<or> m = 6 \<or> m = 9 \<or> m = 11 then 30 else 31)"

definition strptime :: "re \<Rightarrow> string \<Rightarrow> datetime option" where
  "strptime format_regex data_string =
     (case re_match_m format_regex data_string of
        None \<Rightarrow> None
      | Some found \<Rightarrow>
          if m_end found \<noteq> length data_string then None
          else (case (m_group 1 found, m_group 2 found, m_group 3 found) of
                  (Some y, Some m, Some d) \<Rightarrow>
                    (let year = int_of_text y; month = int_of_text m; day = int_of_text d
                     in if 1 \<le> year \<and> 1 \<le> month \<and> month \<le> 12
                           \<and> 1 \<le> day \<and> day \<le> days_in_month year month
                        then Some \<lparr>dt_year = year, dt_month = month, dt_day = day\<rparr>
                        else None)
                | _ \<Rightarrow> None))"

subsection \<open>\<^verbatim>\<open>_parse_filename_metadata\<close>\<close>

text \<open>
  \<^verbatim>\<open>(\d{8})_(10-[KQ](?:/A)?)_edgar_data_(\d{1,10})_([0-9\-]+)\.txt\<close>, searched in the
  file name under \<^verbatim>\<open>re.IGNORECASE\<close>.
\<close>

definition form_10 :: re where
  "form_10 = seqs [chr CHR ''1'', chr CHR ''0'', chr CHR ''-'', oneof_i ''KQ'']"

definition filename_pattern :: re where
  "filename_pattern =
     seqs [Grp 1 (times 8 digit), chr CHR ''_'',
           Grp 2 (Seq form_10 (Opt (lit_i ''/A''))), lit_i ''_edgar_data_'',
           Grp 3 (rep_range 1 10 digit), chr CHR ''_'',
           Grp 4 (plus (oneof ''0123456789-'')), lit_i ''.txt'']"

definition parse_filename_metadata ::
    "string \<Rightarrow> string option \<times> datetime option \<times> string option" where
  "parse_filename_metadata filename =
     (case re_search_m filename_pattern filename of
        None \<Rightarrow> (None, None, None)
      | Some m \<Rightarrow>
          (case (m_group 1 m, m_group 2 m, m_group 3 m) of
             (Some date_str, Some g2, Some g3) \<Rightarrow>
               (Some (str_zfill 10 g3), strptime format_Ymd date_str, Some (str_upper g2))
           | _ \<Rightarrow> (None, None, None)))"

subsection \<open>\<^verbatim>\<open>_extract_cik\<close>\<close>

definition cik_patterns :: "re list" where
  "cik_patterns =
     [seqs [lit_i ''CENTRAL INDEX KEY:'', Star space, Grp 1 (plus digit)],
      seqs [lit_i ''CIK:'', Star space, Grp 1 (plus digit)],
      seqs [lit_i ''C.I.K.'', Star space, lit_i ''NO.'', Star space, Grp 1 (plus digit)]]"

text \<open>
  The loop over the patterns returns at the first pattern that matches; \<open>first_group\<close> is
  the text of group 1 of that match.
\<close>

fun first_match :: "re list \<Rightarrow> string \<Rightarrow> rx_match option" where
  "first_match [] s = None"
| "first_match (p # ps) s =
     (case re_search_m p s of Some m \<Rightarrow> Some m | None \<Rightarrow> first_match ps s)"

definition extract_cik :: "string \<Rightarrow> string option" where
  "extract_cik doc =
     (case first_match cik_patterns (take 5000 doc) of
        None \<Rightarrow> None
      | Some m \<Rightarrow> (case m_group 1 m of
                     Some g \<Rightarrow> Some (str_zfill 10 (str_strip g))
                   | None \<Rightarrow> None))"

subsection \<open>\<^verbatim>\<open>_extract_form_type\<close>\<close>

definition form_type_patterns :: "re list" where
  "form_type_patterns =
     [seqs [lit_i ''FORM'', plus space, Grp 1 form_10, Opt (lit_i ''/A'')],
      seqs [lit_i ''FORM'', plus space, lit_i ''TYPE:'', Star space, Grp 1 form_10,
            Opt (lit_i ''/A'')]]"

text \<open>
  The function is declared to return an optional text, but its last statement returns
  \<^verbatim>\<open>'10-K'\<close>: it never returns \<^verbatim>\<open>None\<close>.
\<close>

definition extract_form_type :: "string \<Rightarrow> string option" where
  "extract_form_type doc =
     (let header = take 2000 doc
      in case first_match form_type_patterns header of
           Some m \<Rightarrow>
             (case m_group 1 m of
                Some g \<Rightarrow>
                  Some (if str_contains ''/A'' (str_upper (m_text m))
                        then str_upper g @ ''/A'' else str_upper g)
              | None \<Rightarrow> None)
         | None \<Rightarrow>
             if str_contains ''FORM 10-Q'' (str_upper header) then Some ''10-Q''
             else if str_contains ''FORM 10-K'' (str_upper header) then Some ''10-K''
             else Some ''10-K'')"

subsection \<open>\<^verbatim>\<open>_extract_filing_date\<close>\<close>

definition date_digit_group :: re where
  "date_digit_group = seqs [times 4 digit, chr CHR ''-'', times 2 digit, chr CHR ''-'', times 2 digit]"

definition filing_date_patterns :: "re list" where
  "filing_date_patterns =
     [seqs [lit_i ''FILED AS OF DATE:'', Star space, Grp 1 (times 8 digit)],
      seqs [lit_i ''DATE OF REPORT'', Star (noneof '':''), chr CHR '':'', Star space,
            Grp 1 date_digit_group]]"

text \<open>
  Here the loop goes on to the next pattern when a pattern matches but neither format
  parses the text of its group.
\<close>

fun extract_filing_date_loop :: "re list \<Rightarrow> string \<Rightarrow> datetime option" where
  "extract_filing_date_loop [] s = None"
| "extract_filing_date_loop (p # ps) s =
     (case re_search_m p s of
        None \<Rightarrow> extract_filing_date_loop ps s
      | Some m \<Rightarrow>
          (case m_group 1 m of
             None \<Rightarrow> extract_filing_date_loop ps s
           | Some date_str \<Rightarrow>
               (case strptime format_Ymd date_str of
                  Some d \<Rightarrow> Some d
                | None \<Rightarrow>
                    (case strptime format_Y_m_d date_str of
                       Some d \<Rightarrow> Some d
                     | None \<Rightarrow> extract_filing_date_loop ps s))))"

definition extract_filing_date :: "string \<Rightarrow> datetime option" where
  "extract_filing_date doc = extract_filing_date_loop filing_date_patterns (take 2000 doc)"

subsection \<open>\<^verbatim>\<open>_extract_company_name\<close>\<close>

definition company_name_patterns :: "re list" where
  "company_name_patterns =
     [seqs [lit_i ''COMPANY'', Star space, lit_i ''CONFORMED'', Star space, lit_i ''NAME:'',
            Star space, Grp 1 (plus dot)],
      seqs [lit_i ''CONFORMED'', Star space, lit_i ''NAME:'', Star space, Grp 1 (plus dot)],
      seqs [lit_i ''REGISTRANT'', Star space, lit_i ''NAME:'', Star space, Grp 1 (plus dot)]]"

fun extract_company_name_loop :: "re list \<Rightarrow> string \<Rightarrow> string" where
  "extract_company_name_loop [] s = ''Unknown Company''"
| "extract_company_name_loop (p # ps) s =
     (case re_search_m p s of
        None \<Rightarrow> extract_company_name_loop ps s
      | Some m \<Rightarrow>
          (case m_group 1 m of
             None \<Rightarrow> extract_company_name_loop ps s
           | Some g \<Rightarrow>
               (let name = re_sub (plus space) '' '' (str_strip g)
                in if 3 < length name \<and> length name < 100 then name
                   else extract_company_name_loop ps s)))"

definition extract_company_name :: "string \<Rightarrow> string" where
  "extract_company_name doc = extract_company_name_loop company_name_patterns (take 5000 doc)"

subsection \<open>\<^verbatim>\<open>_create_filing_from_text\<close>\<close>

text \<open>Python's truth value of an optional text: \<^verbatim>\<open>None\<close> and the empty text are false.\<close>

fun truthy :: "string option \<Rightarrow> bool" where
  "truthy None = False"
| "truthy (Some s) = (s \<noteq> [])"

definition create_filing_from_text :: "string \<Rightarrow> int \<Rightarrow> string \<Rightarrow> Filing option" where
  "create_filing_from_text filename st_size doc =
     (case parse_filename_metadata filename of
        (cik0, filing_date0, form_type0) \<Rightarrow>
          (let cik1 = (if \<not> truthy cik0 then extract_cik doc else cik0);
               filing_date1 = (if filing_date0 = None then extract_filing_date doc else filing_date0);
               form_type1 = (if \<not> truthy form_type0 then extract_form_type doc else form_type0);
               name = extract_company_name doc
           in case (cik1, form_type1) of
                (Some c, Some f) \<Rightarrow>
                  if c = [] \<or> f = [] then None
                  else Some \<lparr>file_path = filename, cik = c, company_name = name,
                             form_type = f, filing_date = filing_date1, file_size = st_size\<rparr>
              | _ \<Rightarrow> None))"

subsection \<open>Facts about the metadata functions\<close>

lemma first_match_group:
  "first_match ps s = Some m \<Longrightarrow> \<forall>p\<in>set ps. grp_sat n Q p \<Longrightarrow> \<exists>t. m_group n m = Some t \<and> Q t"
proof (induction ps)
  case Nil
  then show ?case by simp
next
  case (Cons p ps)
  then show ?case
    by (cases "re_search_m p s") (auto dest: re_search_m_group)
qed

lemma KQ_cases:
  "lower_chr CHR ''K'' = CHR ''k''" "lower_chr CHR ''Q'' = CHR ''q''"
  "upper_chr CHR ''K'' = ''K''" "upper_chr CHR ''Q'' = ''Q''"
  by code_simp+

lemma form_10_ends:
  assumes "y \<in> set (ends form_10 (b, a, g))"
  shows "\<exists>c. a = ''10-'' @ c # fst (snd y) \<and> c \<in> set ''kKqQ''"
proof -
  have "ends form_10 (b, a, g)
      = ends (Seq (chr CHR ''1'') (Seq (chr CHR ''0'') (Seq (chr CHR ''-'') (oneof_i ''KQ'')))) (b, a, g)"
    unfolding form_10_def seqs.simps ..
  with assms obtain a3 where a: "a = CHR ''1'' # CHR ''0'' # CHR ''-'' # a3"
    and y: "y \<in> set (ends (oneof_i ''KQ'') (CHR ''-'' # CHR ''0'' # CHR ''1'' # b, a3, g))"
    by (auto simp del: ends.simps simp: ends_Seq_chr)
  from y obtain c cs where "a3 = c # cs" "y = (c # CHR ''-'' # CHR ''0'' # CHR ''1'' # b, cs, g)"
    and "c \<in> set (map lower_chr ''KQ'') \<or> [c] \<in> set (map upper_chr ''KQ'')"
    unfolding oneof_i_def ends_Cls_iff by auto
  with a show ?thesis by (auto simp: KQ_cases)
qed

lemma upper_10:
  assumes "c \<in> set ''kKqQ''"
  shows "str_upper [CHR ''1'', CHR ''0'', CHR ''-'', c] = ''10-K''
   \<or> str_upper [CHR ''1'', CHR ''0'', CHR ''-'', c] = ''10-Q''"
proof -
  have "str_upper ''10-k'' = ''10-K''" "str_upper ''10-K'' = ''10-K''"
    "str_upper ''10-q'' = ''10-Q''" "str_upper ''10-Q'' = ''10-Q''"
    by code_simp+
  with assms show ?thesis by auto
qed

lemma form_10_consumes:
  "consumes (\<lambda>t. str_upper t = ''10-K'' \<or> str_upper t = ''10-Q'') form_10"
  unfolding consumes_def
proof (intro allI impI)
  fix b a g y
  assume "y \<in> set (ends form_10 (b, a, g))"
  from form_10_ends [OF this] obtain c where
    a: "a = ''10-'' @ c # fst (snd y)" and c: "c \<in> set ''kKqQ''"
    by blast
  from a have "take (length a - length (fst (snd y))) a = [CHR ''1'', CHR ''0'', CHR ''-'', c]"
    by simp
  with upper_10 [OF c]
  show "str_upper (take (length a - length (fst (snd y))) a) = ''10-K''
      \<or> str_upper (take (length a - length (fst (snd y))) a) = ''10-Q''"
    by simp
qed
lemma upper_chr_nonempty: "upper_chr c \<noteq> []"
  by (simp add: upper_chr_def split: option.splits)

lemma str_upper_nonempty: "t \<noteq> [] \<Longrightarrow> str_upper t \<noteq> []"
  by (cases t) (simp_all add: str_upper_def upper_chr_nonempty)

lemma form_type_patterns_group:
  "\<forall>p\<in>set form_type_patterns.
     grp_sat 1 (\<lambda>t. str_upper t = ''10-K'' \<or> str_upper t = ''10-Q'') p"
proof -
  have g: "grp_sat 1 (\<lambda>t. str_upper t = ''10-K'' \<or> str_upper t = ''10-Q'')
             (Seq (Grp 1 form_10) (Opt (lit_i ''/A'')))"
    by (rule grp_sat_Seq1, rule grp_sat_Grp, rule form_10_consumes)
       (simp add: lit_i_def chr_i_def)
  have p1: "grp_sat 1 (\<lambda>t. str_upper t = ''10-K'' \<or> str_upper t = ''10-Q'')
      (seqs [lit_i ''FORM'', plus space, Grp 1 form_10, Opt (lit_i ''/A'')])"
    unfolding seqs.simps by (rule grp_sat_Seq2, rule grp_sat_Seq2, rule g)
  have p2: "grp_sat 1 (\<lambda>t. str_upper t = ''10-K'' \<or> str_upper t = ''10-Q'')
      (seqs [lit_i ''FORM'', plus space, lit_i ''TYPE:'', Star space, Grp 1 form_10,
             Opt (lit_i ''/A'')])"
    unfolding seqs.simps
    by (rule grp_sat_Seq2, rule grp_sat_Seq2, rule grp_sat_Seq2, rule grp_sat_Seq2, rule g)
  show ?thesis unfolding form_type_patterns_def using p1 p2 by simp
qed

lemma extract_form_type_cases:
  "extract_form_type doc = Some ''10-K'' \<or> extract_form_type doc = Some ''10-Q''
   \<or> extract_form_type doc = Some ''10-K/A'' \<or> extract_form_type doc = Some ''10-Q/A''"
proof (cases "first_match form_type_patterns (take 2000 doc)")
  case None
  then show ?thesis by (simp add: extract_form_type_def Let_def)
next
  case (Some m)
  from first_match_group [OF Some form_type_patterns_group]
  obtain t where "m_group 1 m = Some t" "str_upper t = ''10-K'' \<or> str_upper t = ''10-Q''"
    by blast
  with Some show ?thesis by (auto simp: extract_form_type_def Let_def)
qed


lemma consumes_True: "consumes (\<lambda>t. True) r"
  by (simp add: consumes_def)

lemma cik_patterns_group: "\<forall>p\<in>set cik_patterns. grp_sat 1 (\<lambda>t. True) p"
proof -
  have g: "grp_sat 1 (\<lambda>t. True) (Grp 1 (plus digit))"
    by (rule grp_sat_Grp, rule consumes_True)
  have p1: "grp_sat 1 (\<lambda>t. True) (seqs [lit_i ''CENTRAL INDEX KEY:'', Star space, Grp 1 (plus digit)])"
    unfolding seqs.simps by (rule grp_sat_Seq2, rule grp_sat_Seq2, rule g)
  have p2: "grp_sat 1 (\<lambda>t. True) (seqs [lit_i ''CIK:'', Star space, Grp 1 (plus digit)])"
    unfolding seqs.simps by (rule grp_sat_Seq2, rule grp_sat_Seq2, rule g)
  have p3: "grp_sat 1 (\<lambda>t. True)
      (seqs [lit_i ''C.I.K.'', Star space, lit_i ''NO.'', Star space, Grp 1 (plus digit)])"
    unfolding seqs.simps
    by (rule grp_sat_Seq2, rule grp_sat_Seq2, rule grp_sat_Seq2, rule grp_sat_Seq2, rule g)
  show ?thesis unfolding cik_patterns_def using p1 p2 p3 by simp
qed

lemma extract_cik_cases:
  "extract_cik doc = None \<or> (\<exists>c. extract_cik doc = Some c \<and> c \<noteq> [])"
  by (auto simp: extract_cik_def str_zfill_nonempty split: option.splits)

lemma extract_cik_None_iff:
  "extract_cik doc = None \<longleftrightarrow> first_match cik_patterns (take 5000 doc) = None"
proof (cases "first_match cik_patterns (take 5000 doc)")
  case None
  then show ?thesis by (simp add: extract_cik_def)
next
  case (Some m)
  from first_match_group [OF Some cik_patterns_group]
  obtain t where "m_group 1 m = Some t" by blast
  with Some show ?thesis by (simp add: extract_cik_def)
qed

lemma form_10_opt_consumes: "consumes (\<lambda>t. t \<noteq> []) (Seq form_10 (Opt (lit_i ''/A'')))"
  unfolding consumes_def
proof (intro allI impI)
  fix b a g y
  assume "y \<in> set (ends (Seq form_10 (Opt (lit_i ''/A''))) (b, a, g))"
  then obtain z where z: "z \<in> set (ends form_10 (b, a, g))"
    and y: "y \<in> set (ends (Opt (lit_i ''/A'')) z)"
    by auto
  from form_10_ends [OF z] have "length a = 4 + length (fst (snd z))" by auto
  moreover from ends_shrinks [OF y] have "length (fst (snd y)) \<le> length (fst (snd z))" .
  ultimately have "0 < length a - length (fst (snd y))" "a \<noteq> []" by auto
  then show "take (length a - length (fst (snd y))) a \<noteq> []" by simp
qed

lemma filename_pattern_groups:
  "grp_sat 1 (\<lambda>t. True) filename_pattern"
  "grp_sat 2 (\<lambda>t. t \<noteq> []) filename_pattern"
  "grp_sat 3 (\<lambda>t. True) filename_pattern"
proof -
  show "grp_sat 1 (\<lambda>t. True) filename_pattern"
    unfolding filename_pattern_def seqs.simps
    by (rule grp_sat_Seq1, rule grp_sat_Grp, rule consumes_True)
       (simp add: chr_def form_10_def lit_def lit_i_def chr_i_def oneof_i_def rep_range_def
          plus_def oneof_def digit_def eval_nat_numeral)
  show "grp_sat 2 (\<lambda>t. t \<noteq> []) filename_pattern"
    unfolding filename_pattern_def seqs.simps
    by (rule grp_sat_Seq2, rule grp_sat_Seq2, rule grp_sat_Seq1, rule grp_sat_Grp,
        rule form_10_opt_consumes)
       (simp add: chr_def lit_i_def chr_i_def rep_range_def plus_def oneof_def digit_def
          eval_nat_numeral)
  show "grp_sat 3 (\<lambda>t. True) filename_pattern"
    unfolding filename_pattern_def seqs.simps
    by (rule grp_sat_Seq2, rule grp_sat_Seq2, rule grp_sat_Seq2, rule grp_sat_Seq2,
        rule grp_sat_Seq1, rule grp_sat_Grp, rule consumes_True)
       (simp add: chr_def lit_i_def chr_i_def plus_def oneof_def)
qed

lemma parse_filename_metadata_cases:
  "parse_filename_metadata filename = (None, None, None)
   \<or> (\<exists>c d f. parse_filename_metadata filename = (Some c, d, Some f) \<and> c \<noteq> [] \<and> f \<noteq> [])"
proof (cases "re_search_m filename_pattern filename")
  case None
  then show ?thesis by (simp add: parse_filename_metadata_def)
next
  case (Some m)
  from re_search_m_group [OF Some filename_pattern_groups(1)]
  obtain t1 where t1: "m_group 1 m = Some t1" by blast
  from re_search_m_group [OF Some filename_pattern_groups(2)]
  obtain t2 where t2: "m_group 2 m = Some t2" "t2 \<noteq> []" by blast
  from re_search_m_group [OF Some filename_pattern_groups(3)]
  obtain t3 where t3: "m_group 3 m = Some t3" by blast
  from Some t1 t2 t3 show ?thesis
    by (simp add: parse_filename_metadata_def str_zfill_nonempty str_upper_nonempty)
qed

lemma create_filing_None_iff:
  "create_filing_from_text filename st_size doc = None
   \<longleftrightarrow> fst (parse_filename_metadata filename) = None \<and> extract_cik doc = None"
proof -
  from extract_form_type_cases [of doc]
  obtain f where f: "extract_form_type doc = Some f" "f \<noteq> []" by auto
  from parse_filename_metadata_cases [of filename] show ?thesis
  proof
    assume p: "parse_filename_metadata filename = (None, None, None)"
    from extract_cik_cases [of doc] show ?thesis
    proof
      assume "extract_cik doc = None"
      with p f show ?thesis by (simp add: create_filing_from_text_def)
    next
      assume "\<exists>c. extract_cik doc = Some c \<and> c \<noteq> []"
      with p f show ?thesis by (auto simp: create_filing_from_text_def)
    qed
  next
    assume "\<exists>c d f. parse_filename_metadata filename = (Some c, d, Some f) \<and> c \<noteq> [] \<and> f \<noteq> []"
    then show ?thesis by (auto simp: create_filing_from_text_def Let_def)
  qed
qed

lemma create_filing_company_name:
  "create_filing_from_text filename st_size doc = Some created
   \<Longrightarrow> company_name created = extract_company_name doc"
  by (auto simp: create_filing_from_text_def Let_def split: prod.splits option.splits if_splits)

lemma extract_company_name_loop_default:
  "list_all (\<lambda>p. re_search_m p s = None) ps \<Longrightarrow> extract_company_name_loop ps s = ''Unknown Company''"
  by (induction ps) simp_all




text \<open>
  Claim C10. A missing company name is never fatal. \<^verbatim>\<open>_extract_company_name\<close> is
  total and returns \<^verbatim>\<open>Unknown Company\<close> when none of its patterns matches the first 5000
  characters; and whenever an identifier can be derived, from the file name or from the
  text, a Filing is created, whose company name is whatever
  \<^verbatim>\<open>_extract_company_name\<close> returned: the mandatory check reads the identifier and the
  form type only.
\<close>

theorem company_name_not_mandatory:
  "(list_all (\<lambda>p. re_search_m p (take 5000 doc) = None) company_name_patterns \<longrightarrow>
      extract_company_name doc = ''Unknown Company'')
   \<and> (fst (parse_filename_metadata filename) \<noteq> None \<or> extract_cik doc \<noteq> None \<longrightarrow>
        (\<exists>created. create_filing_from_text filename st_size doc = Some created
           \<and> company_name created = extract_company_name doc))"
proof (intro conjI impI)
  assume "list_all (\<lambda>p. re_search_m p (take 5000 doc) = None) company_name_patterns"
  then show "extract_company_name doc = ''Unknown Company''"
    unfolding extract_company_name_def by (rule extract_company_name_loop_default)
next
  assume "fst (parse_filename_metadata filename) \<noteq> None \<or> extract_cik doc \<noteq> None"
  then have "create_filing_from_text filename st_size doc \<noteq> None"
    by (simp add: create_filing_None_iff)
  then obtain created where "create_filing_from_text filename st_size doc = Some created"
    by blast
  then show "\<exists>created. create_filing_from_text filename st_size doc = Some created
           \<and> company_name created = extract_company_name doc"
    by (auto dest: create_filing_company_name)
qed

theorem company_name_not_mandatory_witness:
  "list_all (\<lambda>p. re_search_m p (take 5000 ''CIK: 77\<newline>FORM 10-Q'') = None) company_name_patterns
   \<and> extract_company_name ''CIK: 77\<newline>FORM 10-Q'' = ''Unknown Company''
   \<and> extract_cik ''CIK: 77\<newline>FORM 10-Q'' \<noteq> None
   \<and> (\<exists>created. create_filing_from_text ''filing.txt'' 18 ''CIK: 77\<newline>FORM 10-Q'' = Some created
        \<and> company_name created = ''Unknown Company'')"
proof -
  have h1: "list_all (\<lambda>p. re_search_m p (take 5000 ''CIK: 77\<newline>FORM 10-Q'') = None)
      company_name_patterns"
    by code_simp
  have h2: "extract_cik ''CIK: 77\<newline>FORM 10-Q'' \<noteq> None"
    by code_simp
  from h1 h2 company_name_not_mandatory [of "''CIK: 77\<newline>FORM 10-Q''" "''filing.txt''" 18]
  show ?thesis by (elim conjE) (intro conjI, simp_all only: simp_thms)
qed


end
